theory Spec2Isabelle
  imports Main
begin

section \<open>Host synchronization sweep (lib/host\_synchronize.py)\<close>

text \<open>
  The generator \<^verbatim>\<open>synchronize_hosts(select_query, event_producer, chunk_size, interrupt)\<close>
  is embedded as a function from a world to the list of actions the generator performs,
  in program order, together with the way the generator ended. Every call to a
  collaborator (record store, ORM session state, policy classes, event producer, metrics
  counter, interrupt callable) and every \<^verbatim>\<open>yield\<close> is one action of that list, so that
  "happens before" is the order of the list. The collaborators are fields of an
  environment record over a world state; each one returns its answer and the new world.
\<close>

subsection \<open>Data\<close>

type_synonym time = int
  \<comment> \<open>an instant or a duration, in microseconds (the resolution of Python's datetime)\<close>

record host =
  host_id :: nat
  insights_id :: "string option"
  \<comment> \<open>\<^verbatim>\<open>host.id\<close> and \<^verbatim>\<open>host.canonical_facts.get("insights_id")\<close>\<close>

datatype error = Store_error | Policy_error | Sink_error | Object_deleted
  \<comment> \<open>an exception raised by the record store, by the policy classes, by the event producer,
      and the ORM's \<^verbatim>\<open>ObjectDeletedError\<close>\<close>

datatype sink_reply = Acked | Failed_logged | Sink_raised
  \<comment> \<open>\<^verbatim>\<open>write_event\<close> returns after the acknowledgment, returns after logging a failed
      delivery (the comment above the call), or raises\<close>

record culling_config =
  stale_warning_offset_delta :: time
  culled_offset_delta :: time

record staleness =
  stale_warning_at :: time
  culled_at :: time

record serialized_host =
  s_id :: nat
  s_insights_id :: "string option"
  s_staleness :: staleness
  s_fields :: "string list"

record event =
  e_type :: string
  e_host :: serialized_host

record headers =
  h_event_type :: string
  h_insights_id :: "string option"

record write_call =
  w_event :: event
  w_key :: serialized_host
  w_headers :: headers
  w_topic :: string
  w_wait :: bool

datatype action =
    Query_count
  | Print_total nat
  | Chunk_count int int
  | Chunk_select int int
  | Liveness nat bool
  | Write_event write_call sink_reply
  | Counter_inc
  | Yield nat bool
  | Interrupt_poll bool

datatype status = Exhausted | Interrupted | Raised error
  \<comment> \<open>the generator ended because the loop condition was 0, because of the \<^verbatim>\<open>return\<close>
      after \<^verbatim>\<open>interrupt()\<close>, or with an exception\<close>

record 'w env =
  query_count :: "'w \<Rightarrow> (error + nat) \<times> 'w"
  chunk_count :: "int \<Rightarrow> int \<Rightarrow> 'w \<Rightarrow> (error + nat) \<times> 'w"
  chunk_select :: "int \<Rightarrow> int \<Rightarrow> 'w \<Rightarrow> (error + host list) \<times> 'w"
  expired :: "host \<Rightarrow> 'w \<Rightarrow> bool"
  row_deleted :: "host \<Rightarrow> 'w \<Rightarrow> bool"
  CullingConfig :: "time \<Rightarrow> time \<Rightarrow> error + culling_config"
  clock :: "'w \<Rightarrow> time"
  EGRESS_HOST_FIELDS :: "string list"
  write_event :: "write_call \<Rightarrow> 'w \<Rightarrow> sink_reply \<times> 'w"
  interrupt :: "'w \<Rightarrow> bool \<times> 'w"

text \<open>
  \<^item> \<open>query_count\<close> is \<^verbatim>\<open>select_query.count()\<close>;
  \<^item> \<open>chunk_count start n\<close> is \<^verbatim>\<open>select_query.offset(start).limit(n).count()\<close>;
  \<^item> \<open>chunk_select start n\<close> is the iteration of \<^verbatim>\<open>select_query.offset(start).limit(n)\<close>;
  \<^item> \<open>expired host\<close> is \<^verbatim>\<open>instance_state(host).expired\<close>, read when the record is processed;
  \<^item> \<open>row_deleted host\<close> says whether the row of the instance is gone from the store. Reading
    an attribute of an expired instance makes the ORM load the row again, and that load
    raises \<^verbatim>\<open>ObjectDeletedError\<close> when the row is gone (the comment in
    \<^verbatim>\<open>_should_synchronize\<close> names this error);
  \<^item> \<open>CullingConfig\<close> is the constructor imported from \<^verbatim>\<open>app.culling\<close>;
  \<^item> \<open>write_event\<close> is \<^verbatim>\<open>event_producer.write_event\<close>, \<open>interrupt\<close> the callable of that name.
\<close>

subsection \<open>Staleness policy\<close>

definition WARN_DAYS_AFTER :: int where
  "WARN_DAYS_AFTER = 7"

definition DELETE_DAYS_AFTER :: int where
  "DELETE_DAYS_AFTER = 14"

definition timedelta :: "int \<Rightarrow> time" where
  \<comment> \<open>\<^verbatim>\<open>timedelta(days=d)\<close>\<close>
  "timedelta days = days * 86400000000"

definition Timestamps :: "culling_config \<Rightarrow> time \<Rightarrow> staleness" where
  \<comment> \<open>Modelled from the spec: the class \<^verbatim>\<open>Timestamps\<close> of \<^verbatim>\<open>app.culling\<close> is not among the
      sources. "Staleness Policy Source: two durations; pure function of now to
      stale\_warning\_at and culled\_at (both are now + offset)."\<close>
  "Timestamps config now =
     \<lparr>stale_warning_at = now + stale_warning_offset_delta config,
      culled_at = now + culled_offset_delta config\<rparr>"

definition staleness_timestamps :: "'w env \<Rightarrow> error + (time \<Rightarrow> staleness)" where
  "staleness_timestamps env =
     (case CullingConfig env (timedelta WARN_DAYS_AFTER) (timedelta DELETE_DAYS_AFTER) of
        Inl e \<Rightarrow> Inl e
      | Inr cullingConfig \<Rightarrow> Inr (Timestamps cullingConfig))"

subsection \<open>Decision and emission\<close>

definition should_synchronize :: "'w env \<Rightarrow> 'w \<Rightarrow> host \<Rightarrow> bool" where
  "should_synchronize env w host = (\<not> expired env host w)"

definition serialize_host :: "time \<Rightarrow> host \<Rightarrow> (time \<Rightarrow> staleness) \<Rightarrow> string list \<Rightarrow> serialized_host" where
  \<comment> \<open>Modelled from the spec: \<^verbatim>\<open>serialize_host\<close> of \<^verbatim>\<open>app.serialization\<close> is not among the
      sources. "Serializer: (record, staleness\_timestamps, field\_whitelist) to payload", the
      timestamp set being "derived from now at decision time".\<close>
  "serialize_host now host timestamps whitelist =
     \<lparr>s_id = host_id host, s_insights_id = insights_id host,
      s_staleness = timestamps now, s_fields = whitelist\<rparr>"

definition build_event :: "string \<Rightarrow> serialized_host \<Rightarrow> event" where
  \<comment> \<open>Modelled from the spec: "Event Builder: (event\_type, payload) to envelope".\<close>
  "build_event event_type payload = \<lparr>e_type = event_type, e_host = payload\<rparr>"

definition message_headers :: "string \<Rightarrow> string option \<Rightarrow> headers" where
  \<comment> \<open>Modelled from the spec: "Header Builder: (event\_type, optional\_identifier) to headers".\<close>
  "message_headers event_type ins_id = \<lparr>h_event_type = event_type, h_insights_id = ins_id\<rparr>"

definition updated_call :: "'w env \<Rightarrow> 'w \<Rightarrow> host \<Rightarrow> error + write_call" where
  \<comment> \<open>the arguments of \<^verbatim>\<open>write_event\<close>, as the loop body builds them for a live record\<close>
  "updated_call env w host =
     (case staleness_timestamps env of
        Inl e \<Rightarrow> Inl e
      | Inr timestamps \<Rightarrow>
          (let serialized_host = serialize_host (clock env w) host timestamps (EGRESS_HOST_FIELDS env);
               event = build_event ''updated'' serialized_host;
               ins_id = insights_id host;
               hdrs = message_headers ''updated'' ins_id
           in Inr \<lparr>w_event = event, w_key = serialized_host, w_headers = hdrs,
                   w_topic = ''events'', w_wait = True\<rparr>))"

fun for_host_list :: "'w env \<Rightarrow> host list \<Rightarrow> 'w \<Rightarrow> action list \<times> error option \<times> 'w" where
  "for_host_list env [] w = ([], None, w)"
| "for_host_list env (host # rest) w =
     (let sync_up = should_synchronize env w host in
      if sync_up then
        (case updated_call env w host of
           Inl e \<Rightarrow> ([Liveness (host_id host) sync_up], Some e, w)
         | Inr call \<Rightarrow>
             (case write_event env call w of
                (Sink_raised, w1) \<Rightarrow>
                  ([Liveness (host_id host) sync_up, Write_event call Sink_raised], Some Sink_error, w1)
              | (reply, w1) \<Rightarrow>
                  (case for_host_list env rest w1 of
                     (tr, r, w2) \<Rightarrow>
                       ([Liveness (host_id host) sync_up, Write_event call reply, Counter_inc,
                         Yield (host_id host) sync_up] @ tr, r, w2))))
      else if row_deleted env host w then
        ([Liveness (host_id host) sync_up], Some Object_deleted, w)
      else
        (case for_host_list env rest w of
           (tr, r, w1) \<Rightarrow>
             ([Liveness (host_id host) sync_up, Yield (host_id host) sync_up] @ tr, r, w1)))"

text \<open>
  In the branch of a live record every attribute the loop reads is loaded. In the other
  branch \<^verbatim>\<open>yield host.id, sync_up\<close> reads \<^verbatim>\<open>host.id\<close> on the instance that was just found
  expired: the row is loaded again, and when it is gone the read raises before anything
  is yielded. (The first argument of \<open>Liveness\<close> only names the instance in the trace.)
\<close>

subsection \<open>Sweep driver\<close>

definition prepend :: "action list \<Rightarrow> (action list \<times> status \<times> 'w) option \<Rightarrow> (action list \<times> status \<times> 'w) option" where
  "prepend pre r = map_option (\<lambda>(tr, st, w). (pre @ tr, st, w)) r"

text \<open>
  The \<^verbatim>\<open>while\<close> loop. Nothing in the source bounds the number of rounds (a store that
  answers every window with a positive count keeps it running), so the loop takes fuel,
  one unit per round, and \<open>None\<close> means that the fuel did not suffice.
\<close>

fun while_chunks :: "nat \<Rightarrow> 'w env \<Rightarrow> int \<Rightarrow> int \<Rightarrow> 'w \<Rightarrow> (action list \<times> status \<times> 'w) option" where
  "while_chunks 0 env chunk_size start w = None"
| "while_chunks (Suc fuel) env chunk_size start w =
     (case chunk_count env start chunk_size w of
        (Inl e, w1) \<Rightarrow> Some ([Chunk_count start chunk_size], Raised e, w1)
      | (Inr n, w1) \<Rightarrow>
          if n = 0 then Some ([Chunk_count start chunk_size], Exhausted, w1)
          else
            (case chunk_select env start chunk_size w1 of
               (Inl e, w2) \<Rightarrow>
                 Some ([Chunk_count start chunk_size, Chunk_select start chunk_size], Raised e, w2)
             | (Inr host_list, w2) \<Rightarrow>
                 (case for_host_list env host_list w2 of
                    (tr, Some e, w3) \<Rightarrow>
                      Some ([Chunk_count start chunk_size, Chunk_select start chunk_size] @ tr,
                            Raised e, w3)
                  | (tr, None, w3) \<Rightarrow>
                      (case interrupt env w3 of
                         (True, w4) \<Rightarrow>
                           Some ([Chunk_count start chunk_size, Chunk_select start chunk_size] @ tr
                                 @ [Interrupt_poll True], Interrupted, w4)
                       | (False, w4) \<Rightarrow>
                           prepend ([Chunk_count start chunk_size, Chunk_select start chunk_size] @ tr
                                    @ [Interrupt_poll False])
                             (while_chunks fuel env chunk_size (start + chunk_size) w4)))))"

definition synchronize_hosts :: "nat \<Rightarrow> 'w env \<Rightarrow> int \<Rightarrow> 'w \<Rightarrow> (action list \<times> status \<times> 'w) option" where
  "synchronize_hosts fuel env chunk_size w =
     (case query_count env w of
        (Inl e, w1) \<Rightarrow> Some ([Query_count], Raised e, w1)
      | (Inr total_number, w1) \<Rightarrow>
          prepend [Query_count, Print_total total_number] (while_chunks fuel env chunk_size 0 w1))"

subsection \<open>Reading a trace\<close>

fun outcomes :: "action list \<Rightarrow> (nat \<times> bool) list" where
  "outcomes [] = []"
| "outcomes (Yield i b # tr) = (i, b) # outcomes tr"
| "outcomes (a # tr) = outcomes tr"

fun is_write :: "action \<Rightarrow> bool" where
  "is_write (Write_event c r) = True"
| "is_write a = False"

fun is_returned_write :: "action \<Rightarrow> bool" where
  "is_returned_write (Write_event c r) = (r \<noteq> Sink_raised)"
| "is_returned_write a = False"

fun is_poll :: "action \<Rightarrow> bool" where
  "is_poll (Interrupt_poll b) = True"
| "is_poll a = False"

subsection \<open>A record store that does not change during the sweep\<close>

record world =
  store_down :: "nat \<Rightarrow> bool"
  sink_replies :: "nat \<Rightarrow> sink_reply"
  interrupts :: "nat \<Rightarrow> bool"

text \<open>
  The world of a sweep over a static selection holds what the collaborators will answer:
  \<open>store_down w i\<close> says whether the \<open>i\<close>-th store read from now on throws,
  \<open>sink_replies w i\<close> is the event producer's reply to the \<open>i\<close>-th dispatch from now on,
  \<open>interrupts w i\<close> the answer of the \<open>i\<close>-th call of \<^verbatim>\<open>interrupt()\<close> from now on.
  Each call consumes its answer.
\<close>

definition read_store :: "world \<Rightarrow> bool \<times> world" where
  "read_store w = (store_down w 0, w\<lparr>store_down := (\<lambda>i. store_down w (Suc i))\<rparr>)"

definition window :: "host list \<Rightarrow> int \<Rightarrow> int \<Rightarrow> error + host list" where
  \<comment> \<open>Modelled from the spec: the query object belongs to the ORM, not to the sources.
      "offset(n).limit(m) returning an ordered, iterable view of up to m records starting at
      the n-th matching record". A negative offset or limit is refused by the database.\<close>
  "window rows start n =
     (if start < 0 \<or> n < 0 then Inl Store_error
      else Inr (take (nat n) (drop (nat start) rows)))"

definition static_env :: "host list \<Rightarrow> (host \<Rightarrow> bool) \<Rightarrow> time \<Rightarrow> world env" where
  "static_env rows gone now =
     \<lparr>query_count = (\<lambda>w. case read_store w of
          (down, w1) \<Rightarrow> (if down then Inl Store_error else Inr (length rows), w1)),
      chunk_count = (\<lambda>start n w. case read_store w of
          (down, w1) \<Rightarrow> (if down then Inl Store_error else map_sum id length (window rows start n), w1)),
      chunk_select = (\<lambda>start n w. case read_store w of
          (down, w1) \<Rightarrow> (if down then Inl Store_error else window rows start n, w1)),
      expired = (\<lambda>host w. gone host),
      row_deleted = (\<lambda>host w. False),
      CullingConfig = (\<lambda>warn cull.
          Inr \<lparr>stale_warning_offset_delta = warn, culled_offset_delta = cull\<rparr>),
      clock = (\<lambda>w. now),
      EGRESS_HOST_FIELDS = [],
      write_event = (\<lambda>call w.
          (sink_replies w 0, w\<lparr>sink_replies := (\<lambda>i. sink_replies w (Suc i))\<rparr>)),
      interrupt = (\<lambda>w.
          (interrupts w 0, w\<lparr>interrupts := (\<lambda>i. interrupts w (Suc i))\<rparr>))\<rparr>"


definition outcome :: "(host \<Rightarrow> bool) \<Rightarrow> host \<Rightarrow> nat \<times> bool" where
  "outcome gone host = (host_id host, \<not> gone host)"


fun visits :: "action list \<Rightarrow> nat list" where
  "visits [] = []"
| "visits (Liveness i b # tr) = i # visits tr"
| "visits (a # tr) = visits tr"

fun is_inc :: "action \<Rightarrow> bool" where
  "is_inc Counter_inc = True"
| "is_inc a = False"


definition quiet :: world where
  "quiet = \<lparr>store_down = (\<lambda>i. False), sink_replies = (\<lambda>i. Acked), interrupts = (\<lambda>i. False)\<rparr>"

definition five_hosts :: "host list" where
  "five_hosts = map (\<lambda>i. \<lparr>host_id = i, insights_id = None\<rparr>) [1, 2, 3, 4, 5]"


definition stop_after :: "nat \<Rightarrow> world" where
  \<comment> \<open>as \<open>quiet\<close>, with an \<^verbatim>\<open>interrupt()\<close> that answers true from its \<open>k\<close>-th call on\<close>
  "stop_after k = \<lparr>store_down = (\<lambda>i. False), sink_replies = (\<lambda>i. Acked), interrupts = (\<lambda>i. k \<le> i)\<rparr>"


definition down_from :: "nat \<Rightarrow> world" where
  \<comment> \<open>as \<open>quiet\<close>, with a store that throws from its \<open>k\<close>-th read on\<close>
  "down_from k = \<lparr>store_down = (\<lambda>i. k \<le> i), sink_replies = (\<lambda>i. Acked), interrupts = (\<lambda>i. False)\<rparr>"


fun inc_after_return :: "action list \<Rightarrow> bool" where
  \<comment> \<open>every counter increment comes right after a dispatch that returned, every dispatch
      that returned is followed at once by an increment, and a dispatch that raised is
      the last action\<close>
  "inc_after_return [] = True"
| "inc_after_return (Write_event c r # Counter_inc # tr) = (r \<noteq> Sink_raised \<and> inc_after_return tr)"
| "inc_after_return [Write_event c r] = (r = Sink_raised)"
| "inc_after_return (Write_event c r # a # tr) = False"
| "inc_after_return (Counter_inc # tr) = False"
| "inc_after_return (a # tr) = inc_after_return tr"

definition observed :: "(action list \<times> status \<times> 'w) option \<Rightarrow> (action list \<times> status) option" where
  \<comment> \<open>what a run shows: its actions and the way it ended\<close>
  "observed r = map_option (\<lambda>(tr, st, w). (tr, st)) r"

definition logged_failures :: world where
  \<comment> \<open>as \<open>quiet\<close>, with an event producer that logs every delivery as failed and returns\<close>
  "logged_failures = \<lparr>store_down = (\<lambda>i. False), sink_replies = (\<lambda>i. Failed_logged),
     interrupts = (\<lambda>i. False)\<rparr>"



section \<open>Properties of the sweep\<close>


subsection \<open>Traces\<close>

lemma outcomes_append: "outcomes (a @ b) = outcomes a @ outcomes b"
  by (induction a rule: outcomes.induct) simp_all

lemma visits_append: "visits (a @ b) = visits a @ visits b"
  by (induction a rule: visits.induct) simp_all

lemma static_fields:
  "expired (static_env rows gone now) h w = gone h"
  "row_deleted (static_env rows gone now) h w = False"
  "clock (static_env rows gone now) w = now"
  "EGRESS_HOST_FIELDS (static_env rows gone now) = []"
  "CullingConfig (static_env rows gone now) a b =
     Inr \<lparr>stale_warning_offset_delta = a, culled_offset_delta = b\<rparr>"
  "write_event (static_env rows gone now) c w =
     (sink_replies w 0, w\<lparr>sink_replies := (\<lambda>i. sink_replies w (Suc i))\<rparr>)"
  "interrupt (static_env rows gone now) w =
     (interrupts w 0, w\<lparr>interrupts := (\<lambda>i. interrupts w (Suc i))\<rparr>)"
  "query_count (static_env rows gone now) w =
     (if store_down w 0 then Inl Store_error else Inr (length rows),
      w\<lparr>store_down := (\<lambda>i. store_down w (Suc i))\<rparr>)"
  "chunk_count (static_env rows gone now) start n w =
     (if store_down w 0 then Inl Store_error else map_sum id length (window rows start n),
      w\<lparr>store_down := (\<lambda>i. store_down w (Suc i))\<rparr>)"
  "chunk_select (static_env rows gone now) start n w =
     (if store_down w 0 then Inl Store_error else window rows start n,
      w\<lparr>store_down := (\<lambda>i. store_down w (Suc i))\<rparr>)"
  by (simp_all add: static_env_def read_store_def)

lemma updated_call_static:
  "\<exists>call. \<forall>w. updated_call (static_env rows gone now) w h = Inr call"
  by (simp add: updated_call_def staleness_timestamps_def static_fields Let_def)

lemma for_host_list_gone:
  assumes "gone h"
  shows "for_host_list (static_env rows gone now) (h # rest) w =
    (case for_host_list (static_env rows gone now) rest w of
       (tr, r, w1) \<Rightarrow> ([Liveness (host_id h) False, Yield (host_id h) False] @ tr, r, w1))"
  using assms by (simp add: should_synchronize_def static_fields)

lemma for_host_list_live:
  assumes "\<not> gone h" and "sink_replies w 0 \<noteq> Sink_raised"
    and "updated_call (static_env rows gone now) w h = Inr call"
  shows "for_host_list (static_env rows gone now) (h # rest) w =
    (case for_host_list (static_env rows gone now) rest
            (w\<lparr>sink_replies := (\<lambda>i. sink_replies w (Suc i))\<rparr>) of
       (tr, r, w2) \<Rightarrow>
         ([Liveness (host_id h) True, Write_event call (sink_replies w 0), Counter_inc,
           Yield (host_id h) True] @ tr, r, w2))"
  using assms by (simp add: should_synchronize_def static_fields split: sink_reply.splits)

lemma for_host_list_append:
  "for_host_list env (xs @ ys) w =
     (case for_host_list env xs w of
        (t1, None, w1) \<Rightarrow>
          (case for_host_list env ys w1 of (t2, r, w2) \<Rightarrow> (t1 @ t2, r, w2))
      | (t1, Some e, w1) \<Rightarrow> (t1, Some e, w1))"
proof (induction xs arbitrary: w)
  case Nil
  show ?case by (simp split: prod.splits)
next
  case (Cons x xs)
  show ?case
    by (simp add: Cons.IH Let_def split: prod.splits sum.splits option.splits sink_reply.splits)
qed

declare for_host_list.simps(2) [simp del]

lemma for_host_list_static:
  assumes "\<forall>i. sink_replies w i \<noteq> Sink_raised"
  shows "\<exists>tr w'. for_host_list (static_env rows gone now) hs w = (tr, None, w')
    \<and> outcomes tr = map (outcome gone) hs
    \<and> visits tr = map host_id hs
    \<and> length (filter is_write tr) = length (filter (\<lambda>h. \<not> gone h) hs)
    \<and> length (filter is_inc tr) = length (filter (\<lambda>h. \<not> gone h) hs)
    \<and> filter is_poll tr = []
    \<and> store_down w' = store_down w \<and> interrupts w' = interrupts w
    \<and> (\<forall>i. sink_replies w' i \<noteq> Sink_raised)"
  using assms
proof (induction hs arbitrary: w)
  case Nil
  then show ?case by simp
next
  case (Cons h hs)
  show ?case
  proof (cases "gone h")
    case True
    from Cons.IH [OF Cons.prems] obtain tr w' where
      "for_host_list (static_env rows gone now) hs w = (tr, None, w')"
      "outcomes tr = map (outcome gone) hs" "visits tr = map host_id hs"
      "length (filter is_write tr) = length (filter (\<lambda>h. \<not> gone h) hs)"
      "length (filter is_inc tr) = length (filter (\<lambda>h. \<not> gone h) hs)"
      "filter is_poll tr = []"
      "store_down w' = store_down w" "interrupts w' = interrupts w"
      "\<forall>i. sink_replies w' i \<noteq> Sink_raised"
      by blast
    with True show ?thesis
      by (simp add: for_host_list_gone outcome_def)
  next
    case False
    let ?w1 = "w\<lparr>sink_replies := (\<lambda>i. sink_replies w (Suc i))\<rparr>"
    have ok: "\<forall>i. sink_replies ?w1 i \<noteq> Sink_raised"
      using Cons.prems by simp
    obtain call where call: "updated_call (static_env rows gone now) w h = Inr call"
      using updated_call_static by blast
    from Cons.IH [OF ok] obtain tr w' where
      "for_host_list (static_env rows gone now) hs ?w1 = (tr, None, w')"
      "outcomes tr = map (outcome gone) hs" "visits tr = map host_id hs"
      "length (filter is_write tr) = length (filter (\<lambda>h. \<not> gone h) hs)"
      "length (filter is_inc tr) = length (filter (\<lambda>h. \<not> gone h) hs)"
      "filter is_poll tr = []"
      "store_down w' = store_down ?w1" "interrupts w' = interrupts ?w1"
      "\<forall>i. sink_replies w' i \<noteq> Sink_raised"
      by blast
    with False Cons.prems call show ?thesis
      by (simp add: for_host_list_live outcome_def)
  qed
qed


declare while_chunks.simps(2) [simp del]

lemma while_chunks_exhausted:
  assumes "0 \<le> start" and "0 \<le> n" and "\<not> store_down w 0"
    and "length rows \<le> nat start \<or> n = 0"
  shows "while_chunks (Suc fuel) (static_env rows gone now) n start w =
    Some ([Chunk_count start n], Exhausted, w\<lparr>store_down := (\<lambda>i. store_down w (Suc i))\<rparr>)"
  using assms by (auto simp add: while_chunks.simps(2) static_fields window_def)

lemma while_chunks_round:
  assumes "0 \<le> start" and "0 < n" and "nat start < length rows"
    and "\<not> store_down w 0" and "\<not> store_down w (Suc 0)"
    and "for_host_list (static_env rows gone now) (take (nat n) (drop (nat start) rows))
           (w\<lparr>store_down := (\<lambda>i. store_down w (Suc (Suc i)))\<rparr>) = (t, None, w3)"
  shows "while_chunks (Suc fuel) (static_env rows gone now) n start w =
    (if interrupts w3 0
     then Some (Chunk_count start n # Chunk_select start n # t @ [Interrupt_poll True],
                Interrupted, w3\<lparr>interrupts := (\<lambda>i. interrupts w3 (Suc i))\<rparr>)
     else prepend (Chunk_count start n # Chunk_select start n # t @ [Interrupt_poll False])
            (while_chunks fuel (static_env rows gone now) n (start + n)
               (w3\<lparr>interrupts := (\<lambda>i. interrupts w3 (Suc i))\<rparr>)))"
proof -
  have nonempty: "(min (length rows - nat start) (nat n) = 0) = False"
    using assms(2,3) by simp
  from assms show ?thesis
    by (simp add: while_chunks.simps(2) static_fields window_def nonempty)
qed

lemma drop_window:
  assumes "0 \<le> start" and "0 < n"
  shows "drop (nat (start + n)) rows = drop (nat n) (drop (nat start) rows)"
  using assms by (simp add: nat_add_distrib add.commute)

lemma while_chunks_normal:
  assumes "0 < n" and "0 \<le> start"
    and "\<forall>i. \<not> store_down w i" and "\<forall>i. sink_replies w i \<noteq> Sink_raised"
    and "\<forall>i. \<not> interrupts w i" and "length rows - nat start < fuel"
  shows "\<exists>tr w'. while_chunks fuel (static_env rows gone now) n start w = Some (tr, Exhausted, w')
    \<and> outcomes tr = map (outcome gone) (drop (nat start) rows)
    \<and> visits tr = map host_id (drop (nat start) rows)
    \<and> length (filter is_write tr) = length (filter (\<lambda>h. \<not> gone h) (drop (nat start) rows))
    \<and> length (filter is_inc tr) = length (filter (\<lambda>h. \<not> gone h) (drop (nat start) rows))"
  using assms
proof (induction fuel arbitrary: start w)
  case 0
  then show ?case by simp
next
  case (Suc fuel)
  let ?env = "static_env rows gone now"
  show ?case
  proof (cases "nat start < length rows")
    case False
    with Suc.prems show ?thesis
      by (simp add: while_chunks_exhausted)
  next
    case True
    let ?chunk = "take (nat n) (drop (nat start) rows)"
    let ?w2 = "w\<lparr>store_down := (\<lambda>i. store_down w (Suc (Suc i)))\<rparr>"
    have "\<forall>i. sink_replies ?w2 i \<noteq> Sink_raised"
      using Suc.prems by simp
    from for_host_list_static [OF this, of rows gone now ?chunk]
    obtain t w3 where t:
      "for_host_list ?env ?chunk ?w2 = (t, None, w3)"
      "outcomes t = map (outcome gone) ?chunk" "visits t = map host_id ?chunk"
      "length (filter is_write t) = length (filter (\<lambda>h. \<not> gone h) ?chunk)"
      "length (filter is_inc t) = length (filter (\<lambda>h. \<not> gone h) ?chunk)"
      "store_down w3 = store_down ?w2" "interrupts w3 = interrupts ?w2"
      "\<forall>i. sink_replies w3 i \<noteq> Sink_raised"
      by blast
    let ?w4 = "w3\<lparr>interrupts := (\<lambda>i. interrupts w3 (Suc i))\<rparr>"
    have step: "while_chunks (Suc fuel) ?env n start w =
        prepend (Chunk_count start n # Chunk_select start n # t @ [Interrupt_poll False])
          (while_chunks fuel ?env n (start + n) ?w4)"
      using while_chunks_round [OF Suc.prems(2) Suc.prems(1) True _ _ t(1), of fuel]
        Suc.prems(3,5) t(7) by simp
    have fuel: "length rows - nat (start + n) < fuel"
      using Suc.prems(1,2,6) True by linarith
    have "\<exists>tr w'. while_chunks fuel ?env n (start + n) ?w4 = Some (tr, Exhausted, w')
      \<and> outcomes tr = map (outcome gone) (drop (nat (start + n)) rows)
      \<and> visits tr = map host_id (drop (nat (start + n)) rows)
      \<and> length (filter is_write tr) = length (filter (\<lambda>h. \<not> gone h) (drop (nat (start + n)) rows))
      \<and> length (filter is_inc tr) = length (filter (\<lambda>h. \<not> gone h) (drop (nat (start + n)) rows))"
      using Suc.prems(1,2,3,5) t(6,7,8) fuel
      by (intro Suc.IH) simp_all
    then obtain tr w' where r:
      "while_chunks fuel ?env n (start + n) ?w4 = Some (tr, Exhausted, w')"
      "outcomes tr = map (outcome gone) (drop (nat (start + n)) rows)"
      "visits tr = map host_id (drop (nat (start + n)) rows)"
      "length (filter is_write tr) = length (filter (\<lambda>h. \<not> gone h) (drop (nat (start + n)) rows))"
      "length (filter is_inc tr) = length (filter (\<lambda>h. \<not> gone h) (drop (nat (start + n)) rows))"
      by blast
    have split: "drop (nat start) rows = ?chunk @ drop (nat (start + n)) rows"
      by (simp only: drop_window [OF Suc.prems(2) Suc.prems(1)] append_take_drop_id)
    have "outcomes (Chunk_count start n # Chunk_select start n # t @ [Interrupt_poll False] @ tr)
        = map (outcome gone) (drop (nat start) rows)"
      by (subst split) (simp add: outcomes_append t(2) r(2))
    moreover have "visits (Chunk_count start n # Chunk_select start n # t @ [Interrupt_poll False] @ tr)
        = map host_id (drop (nat start) rows)"
      by (subst split) (simp add: visits_append t(3) r(3))
    moreover have "length (filter is_write (Chunk_count start n # Chunk_select start n # t @ [Interrupt_poll False] @ tr))
        = length (filter (\<lambda>h. \<not> gone h) (drop (nat start) rows))"
      by (subst split) (simp add: t(4) r(4))
    moreover have "length (filter is_inc (Chunk_count start n # Chunk_select start n # t @ [Interrupt_poll False] @ tr))
        = length (filter (\<lambda>h. \<not> gone h) (drop (nat start) rows))"
      by (subst split) (simp add: t(5) r(5))
    ultimately show ?thesis
      by (simp add: step r(1) prepend_def)
  qed
qed


lemma while_chunks_cancel:
  assumes "0 < n" and "0 \<le> start"
    and "\<forall>i. \<not> store_down w i" and "\<forall>i. sink_replies w i \<noteq> Sink_raised"
    and "\<forall>j<k. \<not> interrupts w j" and "interrupts w k"
    and "nat start + k * nat n < length rows" and "k < fuel"
  shows "\<exists>tr w'. while_chunks fuel (static_env rows gone now) n start w = Some (tr, Interrupted, w')
    \<and> outcomes tr = map (outcome gone) (take (Suc k * nat n) (drop (nat start) rows))
    \<and> visits tr = map host_id (take (Suc k * nat n) (drop (nat start) rows))"
  using assms
proof (induction k arbitrary: start w fuel)
  case 0
  let ?env = "static_env rows gone now"
  let ?chunk = "take (nat n) (drop (nat start) rows)"
  let ?w2 = "w\<lparr>store_down := (\<lambda>i. store_down w (Suc (Suc i)))\<rparr>"
  from "0.prems"(8) obtain f where fuel: "fuel = Suc f"
    by (cases fuel) simp_all
  have "\<forall>i. sink_replies ?w2 i \<noteq> Sink_raised"
    using "0.prems"(4) by simp
  from for_host_list_static [OF this, of rows gone now ?chunk]
  obtain t w3 where t:
    "for_host_list ?env ?chunk ?w2 = (t, None, w3)"
    "outcomes t = map (outcome gone) ?chunk" "visits t = map host_id ?chunk"
    "interrupts w3 = interrupts ?w2"
    by blast
  have live: "nat start < length rows"
    using "0.prems"(7) by simp
  have "while_chunks (Suc f) ?env n start w =
      Some (Chunk_count start n # Chunk_select start n # t @ [Interrupt_poll True],
            Interrupted, w3\<lparr>interrupts := (\<lambda>i. interrupts w3 (Suc i))\<rparr>)"
    using while_chunks_round [OF "0.prems"(2) "0.prems"(1) live _ _ t(1), of f]
      "0.prems"(3,6) t(4) by simp
  then show ?case
    by (simp add: fuel outcomes_append visits_append t(2,3))
next
  case (Suc k)
  let ?env = "static_env rows gone now"
  let ?chunk = "take (nat n) (drop (nat start) rows)"
  let ?w2 = "w\<lparr>store_down := (\<lambda>i. store_down w (Suc (Suc i)))\<rparr>"
  from Suc.prems(8) obtain f where fuel: "fuel = Suc f" and f: "k < f"
    by (cases fuel) simp_all
  have "\<forall>i. sink_replies ?w2 i \<noteq> Sink_raised"
    using Suc.prems(4) by simp
  from for_host_list_static [OF this, of rows gone now ?chunk]
  obtain t w3 where t:
    "for_host_list ?env ?chunk ?w2 = (t, None, w3)"
    "outcomes t = map (outcome gone) ?chunk" "visits t = map host_id ?chunk"
    "store_down w3 = store_down ?w2" "interrupts w3 = interrupts ?w2"
    "\<forall>i. sink_replies w3 i \<noteq> Sink_raised"
    by blast
  let ?w4 = "w3\<lparr>interrupts := (\<lambda>i. interrupts w3 (Suc i))\<rparr>"
  have live: "nat start < length rows"
    using Suc.prems(7) by simp
  have go: "\<not> interrupts w 0"
    using Suc.prems(5) by simp
  have step: "while_chunks (Suc f) ?env n start w =
      prepend (Chunk_count start n # Chunk_select start n # t @ [Interrupt_poll False])
        (while_chunks f ?env n (start + n) ?w4)"
    using while_chunks_round [OF Suc.prems(2) Suc.prems(1) live _ _ t(1), of f]
      Suc.prems(3) go t(5) by simp
  have reach: "nat (start + n) + k * nat n < length rows"
    using Suc.prems(1,2,7) by (simp add: nat_add_distrib)
  have "\<exists>tr w'. while_chunks f ?env n (start + n) ?w4 = Some (tr, Interrupted, w')
    \<and> outcomes tr = map (outcome gone) (take (Suc k * nat n) (drop (nat (start + n)) rows))
    \<and> visits tr = map host_id (take (Suc k * nat n) (drop (nat (start + n)) rows))"
    using Suc.prems(1,2,3,5,6) t(4,5,6) reach f
    by (intro Suc.IH) simp_all
  then obtain tr w' where r:
    "while_chunks f ?env n (start + n) ?w4 = Some (tr, Interrupted, w')"
    "outcomes tr = map (outcome gone) (take (Suc k * nat n) (drop (nat (start + n)) rows))"
    "visits tr = map host_id (take (Suc k * nat n) (drop (nat (start + n)) rows))"
    by blast
  have split: "take (Suc (Suc k) * nat n) (drop (nat start) rows)
      = ?chunk @ take (Suc k * nat n) (drop (nat (start + n)) rows)"
    using take_add [of "nat n" "Suc k * nat n" "drop (nat start) rows"]
    by (simp only: drop_window [OF Suc.prems(2) Suc.prems(1)] mult_Suc)
  have "outcomes (Chunk_count start n # Chunk_select start n # t @ [Interrupt_poll False] @ tr)
      = map (outcome gone) (take (Suc (Suc k) * nat n) (drop (nat start) rows))"
    by (subst split) (simp add: outcomes_append t(2) r(2))
  moreover have "visits (Chunk_count start n # Chunk_select start n # t @ [Interrupt_poll False] @ tr)
      = map host_id (take (Suc (Suc k) * nat n) (drop (nat start) rows))"
    by (subst split) (simp add: visits_append t(3) r(3))
  ultimately show ?case
    by (simp add: fuel step r(1) prepend_def)
qed

lemma for_host_list_split:
  assumes "\<forall>i. sink_replies w i \<noteq> Sink_raised"
  shows "\<exists>t1 seg t2 w'.
      for_host_list (static_env rows gone now) (pre @ h # post) w = (t1 @ seg @ t2, None, w')
    \<and> outcomes t1 = map (outcome gone) pre \<and> visits t1 = map host_id pre
    \<and> outcomes t2 = map (outcome gone) post \<and> visits t2 = map host_id post
    \<and> (if gone h then seg = [Liveness (host_id h) False, Yield (host_id h) False]
        else \<exists>call reply. (\<forall>v. updated_call (static_env rows gone now) v h = Inr call)
          \<and> reply \<noteq> Sink_raised
          \<and> seg = [Liveness (host_id h) True, Write_event call reply, Counter_inc,
                    Yield (host_id h) True])
    \<and> store_down w' = store_down w \<and> interrupts w' = interrupts w
    \<and> (\<forall>i. sink_replies w' i \<noteq> Sink_raised)"
proof -
  let ?env = "static_env rows gone now"
  from for_host_list_static [OF assms, of rows gone now pre]
  obtain t1 w1 where t1:
    "for_host_list ?env pre w = (t1, None, w1)"
    "outcomes t1 = map (outcome gone) pre" "visits t1 = map host_id pre"
    "store_down w1 = store_down w" "interrupts w1 = interrupts w"
    "\<forall>i. sink_replies w1 i \<noteq> Sink_raised"
    by blast
  show ?thesis
  proof (cases "gone h")
    case True
    from for_host_list_static [OF t1(6), of rows gone now post]
    obtain t2 w2 where t2:
      "for_host_list ?env post w1 = (t2, None, w2)"
      "outcomes t2 = map (outcome gone) post" "visits t2 = map host_id post"
      "store_down w2 = store_down w1" "interrupts w2 = interrupts w1"
      "\<forall>i. sink_replies w2 i \<noteq> Sink_raised"
      by blast
    have "for_host_list ?env (pre @ h # post) w
        = (t1 @ [Liveness (host_id h) False, Yield (host_id h) False] @ t2, None, w2)"
      using True by (simp add: for_host_list_append t1(1) for_host_list_gone t2(1))
    with True t1 t2 show ?thesis
      by (intro exI [of _ t1] exI [of _ "[Liveness (host_id h) False, Yield (host_id h) False]"]
          exI [of _ t2] exI [of _ w2]) simp
  next
    case False
    let ?v = "w1\<lparr>sink_replies := (\<lambda>i. sink_replies w1 (Suc i))\<rparr>"
    have ok: "\<forall>i. sink_replies ?v i \<noteq> Sink_raised"
      using t1(6) by simp
    obtain call where call: "\<forall>v. updated_call ?env v h = Inr call"
      using updated_call_static by blast
    from for_host_list_static [OF ok, of rows gone now post]
    obtain t2 w2 where t2:
      "for_host_list ?env post ?v = (t2, None, w2)"
      "outcomes t2 = map (outcome gone) post" "visits t2 = map host_id post"
      "store_down w2 = store_down ?v" "interrupts w2 = interrupts ?v"
      "\<forall>i. sink_replies w2 i \<noteq> Sink_raised"
      by blast
    let ?seg = "[Liveness (host_id h) True, Write_event call (sink_replies w1 0), Counter_inc,
                 Yield (host_id h) True]"
    have "for_host_list ?env (h # post) w1 = (?seg @ t2, None, w2)"
      using for_host_list_live [where gone = gone and h = h and w = w1 and rows = rows
          and now = now and call = call and rest = post] False t1(6) call t2(1)
      by simp
    then have "for_host_list ?env (pre @ h # post) w = (t1 @ ?seg @ t2, None, w2)"
      by (simp add: for_host_list_append t1(1))
    moreover have "\<exists>c reply. (\<forall>v. updated_call ?env v h = Inr c) \<and> reply \<noteq> Sink_raised
        \<and> ?seg = [Liveness (host_id h) True, Write_event c reply, Counter_inc,
                   Yield (host_id h) True]"
      using call t1(6) by blast
    ultimately show ?thesis
      using False t1 t2
      by (intro exI [of _ t1] exI [of _ ?seg] exI [of _ t2] exI [of _ w2]) simp
  qed
qed

lemma while_chunks_split:
  assumes "0 < n" and "0 \<le> start"
    and "\<forall>i. \<not> store_down w i" and "\<forall>i. sink_replies w i \<noteq> Sink_raised"
    and "\<forall>i. \<not> interrupts w i" and "length rows - nat start < fuel"
    and "drop (nat start) rows = pre @ h # post"
  shows "\<exists>t1 seg t2 w'.
      while_chunks fuel (static_env rows gone now) n start w = Some (t1 @ seg @ t2, Exhausted, w')
    \<and> outcomes t1 = map (outcome gone) pre \<and> visits t1 = map host_id pre
    \<and> outcomes t2 = map (outcome gone) post \<and> visits t2 = map host_id post
    \<and> (if gone h then seg = [Liveness (host_id h) False, Yield (host_id h) False]
        else \<exists>call reply. (\<forall>v. updated_call (static_env rows gone now) v h = Inr call)
          \<and> reply \<noteq> Sink_raised
          \<and> seg = [Liveness (host_id h) True, Write_event call reply, Counter_inc,
                    Yield (host_id h) True])"
  using assms
proof (induction fuel arbitrary: start w pre)
  case 0
  then show ?case by simp
next
  case (Suc fuel)
  let ?env = "static_env rows gone now"
  let ?chunk = "take (nat n) (drop (nat start) rows)"
  let ?w2 = "w\<lparr>store_down := (\<lambda>i. store_down w (Suc (Suc i)))\<rparr>"
  let ?CC = "Chunk_count start n" and ?CS = "Chunk_select start n"
  have ok2: "\<forall>i. sink_replies ?w2 i \<noteq> Sink_raised"
    using Suc.prems(4) by simp
  have live: "nat start < length rows"
  proof (rule ccontr)
    assume "\<not> nat start < length rows"
    then have "drop (nat start) rows = []" by simp
    with Suc.prems(7) show False by simp
  qed
  have fuel: "length rows - nat (start + n) < fuel"
    using Suc.prems(1,2,6) live by linarith
  have rest: "drop (nat (start + n)) rows = drop (nat n) (pre @ h # post)"
    by (simp only: drop_window [OF Suc.prems(2) Suc.prems(1)] Suc.prems(7))
  show ?case
  proof (cases "length pre < nat n")
    case True
    let ?m = "nat n - Suc (length pre)"
    have chunk: "?chunk = pre @ h # take ?m post"
      using True by (simp add: Suc.prems(7) take_Cons')
    have rest': "drop (nat (start + n)) rows = drop ?m post"
      using True by (simp add: rest drop_Cons')
    from for_host_list_split [OF ok2, of rows gone now pre h "take ?m post"]
    obtain t1 seg t2 w3 where c:
      "for_host_list ?env (pre @ h # take ?m post) ?w2 = (t1 @ seg @ t2, None, w3)"
      "outcomes t1 = map (outcome gone) pre" "visits t1 = map host_id pre"
      "outcomes t2 = map (outcome gone) (take ?m post)" "visits t2 = map host_id (take ?m post)"
      "if gone h then seg = [Liveness (host_id h) False, Yield (host_id h) False]
        else \<exists>call reply. (\<forall>v. updated_call ?env v h = Inr call)
          \<and> reply \<noteq> Sink_raised
          \<and> seg = [Liveness (host_id h) True, Write_event call reply, Counter_inc,
                    Yield (host_id h) True]"
      "store_down w3 = store_down ?w2" "interrupts w3 = interrupts ?w2"
      "\<forall>i. sink_replies w3 i \<noteq> Sink_raised"
      by blast
    let ?w4 = "w3\<lparr>interrupts := (\<lambda>i. interrupts w3 (Suc i))\<rparr>"
    have c1: "for_host_list ?env ?chunk ?w2 = (t1 @ seg @ t2, None, w3)"
      using c(1) by (simp only: chunk)
    have step: "while_chunks (Suc fuel) ?env n start w =
        prepend (?CC # ?CS # (t1 @ seg @ t2) @ [Interrupt_poll False])
          (while_chunks fuel ?env n (start + n) ?w4)"
      using while_chunks_round [OF Suc.prems(2) Suc.prems(1) live _ _ c1, of fuel]
        Suc.prems(3,5) c(8) by simp
    have "\<exists>tr w'. while_chunks fuel ?env n (start + n) ?w4 = Some (tr, Exhausted, w')
      \<and> outcomes tr = map (outcome gone) (drop (nat (start + n)) rows)
      \<and> visits tr = map host_id (drop (nat (start + n)) rows)
      \<and> length (filter is_write tr) = length (filter (\<lambda>h. \<not> gone h) (drop (nat (start + n)) rows))
      \<and> length (filter is_inc tr) = length (filter (\<lambda>h. \<not> gone h) (drop (nat (start + n)) rows))"
      using Suc.prems(1,2,3,5) c(7,8,9) fuel
      by (intro while_chunks_normal) simp_all
    then obtain tr w' where r:
      "while_chunks fuel ?env n (start + n) ?w4 = Some (tr, Exhausted, w')"
      "outcomes tr = map (outcome gone) (drop ?m post)"
      "visits tr = map host_id (drop ?m post)"
      unfolding rest' by blast
    let ?t1 = "?CC # ?CS # t1" and ?t2 = "t2 @ [Interrupt_poll False] @ tr"
    have "while_chunks (Suc fuel) ?env n start w = Some (?t1 @ seg @ ?t2, Exhausted, w')"
      by (simp add: step r(1) prepend_def)
    moreover have "outcomes ?t1 = map (outcome gone) pre" "visits ?t1 = map host_id pre"
      by (simp_all add: c(2,3))
    moreover have "outcomes ?t2 = map (outcome gone) post"
      using append_take_drop_id [of ?m post]
      by (simp add: outcomes_append c(4) r(2) flip: map_append)
    moreover have "visits ?t2 = map host_id post"
      using append_take_drop_id [of ?m post]
      by (simp add: visits_append c(5) r(3) flip: map_append)
    ultimately show ?thesis
      using c(6) by blast
  next
    case False
    have chunk: "?chunk = take (nat n) pre"
      using False by (simp add: Suc.prems(7))
    have rest': "drop (nat (start + n)) rows = drop (nat n) pre @ h # post"
      using False by (simp add: rest)
    from for_host_list_static [OF ok2, of rows gone now ?chunk]
    obtain t w3 where t:
      "for_host_list ?env ?chunk ?w2 = (t, None, w3)"
      "outcomes t = map (outcome gone) ?chunk" "visits t = map host_id ?chunk"
      "store_down w3 = store_down ?w2" "interrupts w3 = interrupts ?w2"
      "\<forall>i. sink_replies w3 i \<noteq> Sink_raised"
      by blast
    let ?w4 = "w3\<lparr>interrupts := (\<lambda>i. interrupts w3 (Suc i))\<rparr>"
    have step: "while_chunks (Suc fuel) ?env n start w =
        prepend (?CC # ?CS # t @ [Interrupt_poll False])
          (while_chunks fuel ?env n (start + n) ?w4)"
      using while_chunks_round [OF Suc.prems(2) Suc.prems(1) live _ _ t(1), of fuel]
        Suc.prems(3,5) t(5) by simp
    have pos: "0 \<le> start + n"
      using Suc.prems(1,2) by simp
    have "\<exists>t1 seg t2 w'.
        while_chunks fuel ?env n (start + n) ?w4 = Some (t1 @ seg @ t2, Exhausted, w')
      \<and> outcomes t1 = map (outcome gone) (drop (nat n) pre) \<and> visits t1 = map host_id (drop (nat n) pre)
      \<and> outcomes t2 = map (outcome gone) post \<and> visits t2 = map host_id post
      \<and> (if gone h then seg = [Liveness (host_id h) False, Yield (host_id h) False]
          else \<exists>call reply. (\<forall>v. updated_call ?env v h = Inr call)
            \<and> reply \<noteq> Sink_raised
            \<and> seg = [Liveness (host_id h) True, Write_event call reply, Counter_inc,
                      Yield (host_id h) True])"
      using Suc.prems(3,5) t(4,5,6)
      by (intro Suc.IH [OF Suc.prems(1) pos _ _ _ fuel rest']) simp_all
    then obtain t1 seg t2 w' where r:
      "while_chunks fuel ?env n (start + n) ?w4 = Some (t1 @ seg @ t2, Exhausted, w')"
      "outcomes t1 = map (outcome gone) (drop (nat n) pre)"
      "visits t1 = map host_id (drop (nat n) pre)"
      "outcomes t2 = map (outcome gone) post" "visits t2 = map host_id post"
      "if gone h then seg = [Liveness (host_id h) False, Yield (host_id h) False]
          else \<exists>call reply. (\<forall>v. updated_call ?env v h = Inr call)
            \<and> reply \<noteq> Sink_raised
            \<and> seg = [Liveness (host_id h) True, Write_event call reply, Counter_inc,
                      Yield (host_id h) True]"
      by blast
    let ?t1 = "?CC # ?CS # t @ [Interrupt_poll False] @ t1"
    have "while_chunks (Suc fuel) ?env n start w = Some (?t1 @ seg @ t2, Exhausted, w')"
      by (simp add: step r(1) prepend_def)
    moreover have "outcomes ?t1 = map (outcome gone) pre"
      using append_take_drop_id [of "nat n" pre]
      by (simp add: outcomes_append t(2) r(2) chunk flip: map_append)
    moreover have "visits ?t1 = map host_id pre"
      using append_take_drop_id [of "nat n" pre]
      by (simp add: visits_append t(3) r(3) chunk flip: map_append)
    ultimately show ?thesis
      using r(4,5,6) by blast
  qed
qed

lemma while_chunks_count_fails:
  assumes "store_down w 0"
  shows "while_chunks (Suc fuel) (static_env rows gone now) n start w =
    Some ([Chunk_count start n], Raised Store_error,
          w\<lparr>store_down := (\<lambda>i. store_down w (Suc i))\<rparr>)"
  using assms by (simp add: while_chunks.simps(2) static_fields)

lemma while_chunks_select_fails:
  assumes "0 \<le> start" and "0 < n" and "nat start < length rows"
    and "\<not> store_down w 0" and "store_down w (Suc 0)"
  shows "while_chunks (Suc fuel) (static_env rows gone now) n start w =
    Some ([Chunk_count start n, Chunk_select start n], Raised Store_error,
          w\<lparr>store_down := (\<lambda>i. store_down w (Suc (Suc i)))\<rparr>)"
proof -
  have nonempty: "(min (length rows - nat start) (nat n) = 0) = False"
    using assms(2,3) by simp
  from assms show ?thesis
    by (simp add: while_chunks.simps(2) static_fields window_def nonempty)
qed

lemma while_chunks_store_fails:
  assumes "0 < n" and "0 \<le> start"
    and "\<forall>i. sink_replies w i \<noteq> Sink_raised" and "\<forall>i. \<not> interrupts w i"
    and "\<forall>i < 2 * k + (if sel then 1 else 0). \<not> store_down w i"
    and "store_down w (2 * k + (if sel then 1 else 0))"
    and "nat start + k * nat n < length rows + (if sel then 0 else nat n)"
    and "k < fuel"
  shows "\<exists>tr w'. while_chunks fuel (static_env rows gone now) n start w
                    = Some (tr, Raised Store_error, w')
    \<and> outcomes tr = map (outcome gone) (take (k * nat n) (drop (nat start) rows))
    \<and> visits tr = map host_id (take (k * nat n) (drop (nat start) rows))
    \<and> tr \<noteq> []
    \<and> last tr = (if sel then Chunk_select (start + int k * n) n
                  else Chunk_count (start + int k * n) n)"
  using assms
proof (induction k arbitrary: start w fuel)
  case 0
  from "0.prems"(8) obtain f where fuel: "fuel = Suc f"
    by (cases fuel) simp_all
  show ?case
  proof (cases sel)
    case False
    with "0.prems"(6) have "store_down w 0" by simp
    with False show ?thesis
      by (simp add: fuel while_chunks_count_fails)
  next
    case True
    with "0.prems"(5,6,7) have "\<not> store_down w 0" "store_down w (Suc 0)" "nat start < length rows"
      by simp_all
    with True "0.prems"(1,2) show ?thesis
      by (simp add: fuel while_chunks_select_fails)
  qed
next
  case (Suc k)
  let ?env = "static_env rows gone now"
  let ?chunk = "take (nat n) (drop (nat start) rows)"
  let ?w2 = "w\<lparr>store_down := (\<lambda>i. store_down w (Suc (Suc i)))\<rparr>"
  let ?b = "if sel then 1 else (0::nat)"
  from Suc.prems(8) obtain f where fuel: "fuel = Suc f" and f: "k < f"
    by (cases fuel) simp_all
  have up: "\<not> store_down w 0" "\<not> store_down w (Suc 0)"
    using Suc.prems(5) by simp_all
  have live: "nat start < length rows"
    using Suc.prems(1,7) by (cases sel) simp_all
  have "\<forall>i. sink_replies ?w2 i \<noteq> Sink_raised"
    using Suc.prems(3) by simp
  from for_host_list_static [OF this, of rows gone now ?chunk]
  obtain t w3 where t:
    "for_host_list ?env ?chunk ?w2 = (t, None, w3)"
    "outcomes t = map (outcome gone) ?chunk" "visits t = map host_id ?chunk"
    "store_down w3 = store_down ?w2" "interrupts w3 = interrupts ?w2"
    "\<forall>i. sink_replies w3 i \<noteq> Sink_raised"
    by blast
  let ?w4 = "w3\<lparr>interrupts := (\<lambda>i. interrupts w3 (Suc i))\<rparr>"
  have step: "while_chunks (Suc f) ?env n start w =
      prepend (Chunk_count start n # Chunk_select start n # t @ [Interrupt_poll False])
        (while_chunks f ?env n (start + n) ?w4)"
    using while_chunks_round [OF Suc.prems(2) Suc.prems(1) live up t(1), of f]
      Suc.prems(4) t(5) by simp
  have pos: "0 \<le> start + n"
    using Suc.prems(1,2) by simp
  have before: "\<forall>i < 2 * k + ?b. \<not> store_down ?w4 i"
  proof (intro allI impI)
    fix i assume "i < 2 * k + ?b"
    then have "Suc (Suc i) < 2 * Suc k + ?b" by simp
    with Suc.prems(5) have "\<not> store_down w (Suc (Suc i))" by blast
    then show "\<not> store_down ?w4 i" by (simp add: t(4))
  qed
  have at: "store_down ?w4 (2 * k + ?b)"
    using Suc.prems(6) by (simp add: t(4))
  have reach: "nat (start + n) + k * nat n < length rows + (if sel then 0 else nat n)"
    using Suc.prems(1,2,7) by (simp add: nat_add_distrib add.assoc)
  have ok4: "\<forall>i. sink_replies ?w4 i \<noteq> Sink_raised" and calm4: "\<forall>i. \<not> interrupts ?w4 i"
    using t(5,6) Suc.prems(4) by simp_all
  from Suc.IH [OF Suc.prems(1) pos ok4 calm4 before at reach f]
  obtain tr w' where r:
    "while_chunks f ?env n (start + n) ?w4 = Some (tr, Raised Store_error, w')"
    "outcomes tr = map (outcome gone) (take (k * nat n) (drop (nat (start + n)) rows))"
    "visits tr = map host_id (take (k * nat n) (drop (nat (start + n)) rows))"
    "tr \<noteq> []"
    "last tr = (if sel then Chunk_select (start + n + int k * n) n
                else Chunk_count (start + n + int k * n) n)"
    by blast
  have split: "take (Suc k * nat n) (drop (nat start) rows)
      = ?chunk @ take (k * nat n) (drop (nat (start + n)) rows)"
    using take_add [of "nat n" "k * nat n" "drop (nat start) rows"]
    by (simp only: drop_window [OF Suc.prems(2) Suc.prems(1)] mult_Suc)
  have offset: "start + n + int k * n = start + int (Suc k) * n"
    by (simp add: algebra_simps)
  let ?tr = "Chunk_count start n # Chunk_select start n # t @ [Interrupt_poll False] @ tr"
  have "outcomes ?tr = map (outcome gone) (take (Suc k * nat n) (drop (nat start) rows))"
    by (subst split) (simp add: outcomes_append t(2) r(2))
  moreover have "visits ?tr = map host_id (take (Suc k * nat n) (drop (nat start) rows))"
    by (subst split) (simp add: visits_append t(3) r(3))
  moreover have "last ?tr = (if sel then Chunk_select (start + int (Suc k) * n) n
                else Chunk_count (start + int (Suc k) * n) n)"
    using r(4,5) by (simp only: offset) simp
  moreover have "while_chunks fuel ?env n start w = Some (?tr, Raised Store_error, w')"
    by (simp add: fuel step r(1) prepend_def)
  ultimately show ?case
    by blast
qed

lemma for_host_list_inc:
  "for_host_list env hs w = (t, r, w') \<Longrightarrow>
     (case r of None \<Rightarrow> \<forall>rest. inc_after_return (t @ rest) = inc_after_return rest
      | Some e \<Rightarrow> inc_after_return t)"
proof (induction hs arbitrary: w t r w')
  case Nil
  then show ?case by simp
next
  case (Cons h hs)
  show ?case
  proof (cases "should_synchronize env w h")
    case False
    show ?thesis
    proof (cases "row_deleted env h w")
      case True
      with Cons.prems False show ?thesis
        by (auto simp add: for_host_list.simps(2))
    next
      case present: False
      obtain t1 r1 w1 where rest: "for_host_list env hs w = (t1, r1, w1)"
        by (cases "for_host_list env hs w") auto
      from Cons.prems False present rest
      have t: "t = Liveness (host_id h) False # Yield (host_id h) False # t1" and r: "r = r1"
        by (simp_all add: for_host_list.simps(2))
      from Cons.IH [OF rest] show ?thesis
        by (simp add: t r split: option.splits)
    qed
  next
    case True
    show ?thesis
    proof (cases "updated_call env w h")
      case (Inl e)
      with Cons.prems True show ?thesis
        by (auto simp add: for_host_list.simps(2))
    next
      case (Inr call)
      obtain reply v where sink: "write_event env call w = (reply, v)"
        by (cases "write_event env call w") auto
      show ?thesis
      proof (cases "reply = Sink_raised")
        case True
        with Cons.prems \<open>should_synchronize env w h\<close> Inr sink show ?thesis
          by (auto simp add: for_host_list.simps(2))
      next
        case False
        obtain t1 r1 w1 where rest: "for_host_list env hs v = (t1, r1, w1)"
          by (cases "for_host_list env hs v") auto
        from Cons.prems \<open>should_synchronize env w h\<close> Inr sink False rest
        have t: "t = Liveness (host_id h) True # Write_event call reply # Counter_inc
                     # Yield (host_id h) True # t1" and r: "r = r1"
          by (cases reply; simp add: for_host_list.simps(2))+
        from Cons.IH [OF rest] False show ?thesis
          by (simp add: t r split: option.splits)
      qed
    qed
  qed
qed

lemma while_chunks_inc:
  "while_chunks fuel env n start w = Some (tr, st, w') \<Longrightarrow> inc_after_return tr"
proof (induction fuel arbitrary: start w tr st w')
  case 0
  then show ?case by simp
next
  case (Suc fuel)
  obtain c w1 where c: "chunk_count env start n w = (c, w1)"
    by (cases "chunk_count env start n w") auto
  show ?case
  proof (cases c)
    case (Inl e)
    with Suc.prems c show ?thesis
      by (auto simp add: while_chunks.simps(2))
  next
    case (Inr m)
    show ?thesis
    proof (cases "m = 0")
      case True
      with Suc.prems c Inr show ?thesis
        by (auto simp add: while_chunks.simps(2))
    next
      case False
      obtain s w2 where s: "chunk_select env start n w1 = (s, w2)"
        by (cases "chunk_select env start n w1") auto
      show ?thesis
      proof (cases s)
        case (Inl e)
        with Suc.prems c \<open>c = Inr m\<close> False s show ?thesis
          by (auto simp add: while_chunks.simps(2))
      next
        case (Inr host_list)
        obtain t r w3 where body: "for_host_list env host_list w2 = (t, r, w3)"
          by (cases "for_host_list env host_list w2") auto
        show ?thesis
        proof (cases r)
          case (Some e)
          with for_host_list_inc [OF body] have "inc_after_return t" by simp
          with Suc.prems c \<open>c = Inr m\<close> False s Inr body Some show ?thesis
            by (auto simp add: while_chunks.simps(2))
        next
          case None
          with for_host_list_inc [OF body]
          have skip: "\<And>rest. inc_after_return (t @ rest) = inc_after_return rest" by simp
          obtain b w4 where poll: "interrupt env w3 = (b, w4)"
            by (cases "interrupt env w3") auto
          show ?thesis
          proof (cases b)
            case True
            with Suc.prems c \<open>c = Inr m\<close> False s Inr body None poll show ?thesis
              by (auto simp add: while_chunks.simps(2) skip)
          next
            case False
            with Suc.prems c \<open>c = Inr m\<close> \<open>m \<noteq> 0\<close> s Inr body None poll
            obtain tr' where next_round: "while_chunks fuel env n (start + n) w4 = Some (tr', st, w')"
              and tr: "tr = Chunk_count start n # Chunk_select start n # t @ Interrupt_poll False # tr'"
              by (auto simp add: while_chunks.simps(2) prepend_def)
            from Suc.IH [OF next_round] show ?thesis
              by (simp add: tr skip)
          qed
        qed
      qed
    qed
  qed
qed

lemma inc_after_return_counts:
  "inc_after_return tr \<Longrightarrow> length (filter is_inc tr) = length (filter is_returned_write tr)"
  by (induction tr rule: inc_after_return.induct) auto


lemma while_chunks_body_fails:
  assumes "0 \<le> start" and "0 < n" and "nat start < length rows"
    and "\<not> store_down w 0" and "\<not> store_down w (Suc 0)"
    and "for_host_list (static_env rows gone now) (take (nat n) (drop (nat start) rows))
           (w\<lparr>store_down := (\<lambda>i. store_down w (Suc (Suc i)))\<rparr>) = (t, Some e, w3)"
  shows "while_chunks (Suc fuel) (static_env rows gone now) n start w =
    Some (Chunk_count start n # Chunk_select start n # t, Raised e, w3)"
proof -
  have nonempty: "(min (length rows - nat start) (nat n) = 0) = False"
    using assms(2,3) by simp
  from assms show ?thesis
    by (simp add: while_chunks.simps(2) static_fields window_def nonempty)
qed

lemma while_chunks_total:
  assumes "length rows - nat start < fuel"
  shows "\<exists>tr st w'. while_chunks fuel (static_env rows gone now) n start w = Some (tr, st, w')"
  using assms
proof (induction fuel arbitrary: start w)
  case 0
  then show ?case by simp
next
  case (Suc fuel)
  let ?env = "static_env rows gone now"
  let ?w2 = "w\<lparr>store_down := (\<lambda>i. store_down w (Suc (Suc i)))\<rparr>"
  show ?case
  proof (cases "store_down w 0 \<or> start < 0 \<or> n \<le> 0 \<or> length rows \<le> nat start")
    case True
    then show ?thesis
      by (auto simp add: while_chunks.simps(2) static_fields window_def)
  next
    case False
    then have up: "\<not> store_down w 0" and pos: "0 \<le> start" "0 < n" and live: "nat start < length rows"
      by simp_all
    show ?thesis
    proof (cases "store_down w (Suc 0)")
      case True
      with pos live up show ?thesis
        by (simp add: while_chunks_select_fails)
    next
      case False
      obtain t r w3 where body:
        "for_host_list ?env (take (nat n) (drop (nat start) rows)) ?w2 = (t, r, w3)"
        by (cases "for_host_list ?env (take (nat n) (drop (nat start) rows)) ?w2") auto
      show ?thesis
      proof (cases r)
        case (Some e)
        with while_chunks_body_fails [OF pos live up False, of gone now t e w3 fuel] body
        show ?thesis by simp
      next
        case None
        have fuel: "length rows - nat (start + n) < fuel"
          using Suc.prems pos live by linarith
        from Suc.IH [OF fuel] obtain tr st w' where
          "while_chunks fuel ?env n (start + n)
             (w3\<lparr>interrupts := (\<lambda>i. interrupts w3 (Suc i))\<rparr>) = Some (tr, st, w')"
          by blast
        with while_chunks_round [OF pos live up False, of gone now t w3 fuel] body None
        show ?thesis
          by (simp add: prepend_def)
      qed
    qed
  qed
qed






text \<open>
  Claim C1 (chunking completeness). Over a record store that does not change, with a chunk
  size above zero, a store that answers, an event producer that returns and the default
  \<^verbatim>\<open>interrupt\<close> that never asks to stop, the sweep ends by exhaustion and has yielded exactly
  one outcome per record, in selection order, each record having been visited exactly once
  and in that order. Nothing is assumed about how the number of records relates to the
  chunk size.
\<close>

theorem chunking_completeness:
  assumes "0 < chunk_size"
    and "\<forall>i. \<not> store_down w i" and "\<forall>i. sink_replies w i \<noteq> Sink_raised"
    and "\<forall>i. \<not> interrupts w i" and "length rows < fuel"
  shows "\<exists>tr w'. synchronize_hosts fuel (static_env rows gone now) chunk_size w
                    = Some (tr, Exhausted, w')
    \<and> outcomes tr = map (outcome gone) rows
    \<and> visits tr = map host_id rows"
proof -
  let ?w1 = "w\<lparr>store_down := (\<lambda>i. store_down w (Suc i))\<rparr>"
  have "\<exists>tr w'. while_chunks fuel (static_env rows gone now) chunk_size 0 ?w1 = Some (tr, Exhausted, w')
    \<and> outcomes tr = map (outcome gone) (drop (nat 0) rows)
    \<and> visits tr = map host_id (drop (nat 0) rows)
    \<and> length (filter is_write tr) = length (filter (\<lambda>h. \<not> gone h) (drop (nat 0) rows))
    \<and> length (filter is_inc tr) = length (filter (\<lambda>h. \<not> gone h) (drop (nat 0) rows))"
    using assms by (intro while_chunks_normal) simp_all
  then obtain tr w' where
    "while_chunks fuel (static_env rows gone now) chunk_size 0 ?w1 = Some (tr, Exhausted, w')"
    "outcomes tr = map (outcome gone) rows" "visits tr = map host_id rows"
    by auto
  with assms(2) show ?thesis
    by (simp add: synchronize_hosts_def static_fields prepend_def)
qed

theorem chunking_completeness_witness:
  "(0::int) < 2 \<and> (\<forall>i. \<not> store_down quiet i) \<and> (\<forall>i. sink_replies quiet i \<noteq> Sink_raised)
   \<and> (\<forall>i. \<not> interrupts quiet i) \<and> length five_hosts < 6
   \<and> (\<exists>tr w'. synchronize_hosts 6 (static_env five_hosts (\<lambda>h. False) 0) 2 quiet
                  = Some (tr, Exhausted, w')
        \<and> outcomes tr = [(1, True), (2, True), (3, True), (4, True), (5, True)]
        \<and> visits tr = [1, 2, 3, 4, 5])"
  using chunking_completeness [where chunk_size = 2 and w = quiet and rows = five_hosts
      and fuel = 6 and gone = "\<lambda>h. False" and now = 0]
  by (simp add: quiet_def five_hosts_def outcome_def)


text \<open>
  Claim C10 (chunk size 0). Called with \<^verbatim>\<open>chunk_size = 0\<close> over a store that answers, the
  sweep prints the total, reads one window of limit 0, finds it empty and ends by
  exhaustion: no record is visited, nothing is yielded, nothing is raised, and one unit
  of fuel suffices whatever the number of records.
\<close>

theorem zero_chunk_size:
  assumes "\<not> store_down w 0" and "\<not> store_down w (Suc 0)"
  shows "\<exists>tr w'. synchronize_hosts (Suc fuel) (static_env rows gone now) 0 w
                    = Some (tr, Exhausted, w')
    \<and> tr = [Query_count, Print_total (length rows), Chunk_count 0 0]
    \<and> outcomes tr = [] \<and> visits tr = []"
  using assms
  by (simp add: synchronize_hosts_def static_fields prepend_def while_chunks_exhausted)

theorem zero_chunk_size_witness:
  "\<not> store_down quiet 0 \<and> \<not> store_down quiet (Suc 0)
   \<and> (\<exists>tr w'. synchronize_hosts (Suc 0) (static_env five_hosts (\<lambda>h. False) 0) 0 quiet
                  = Some (tr, Exhausted, w')
        \<and> tr = [Query_count, Print_total 5, Chunk_count 0 0]
        \<and> outcomes tr = [] \<and> visits tr = [])"
  using zero_chunk_size [where w = quiet and fuel = 0 and rows = five_hosts
      and gone = "\<lambda>h. False" and now = 0]
  by (simp add: quiet_def five_hosts_def eval_nat_numeral)

text \<open>
  Claim C6 (staleness timestamps). A live record's event is dispatched right after its
  liveness check, and the staleness timestamp set inside the dispatched event is the
  decision time plus 7 days and plus 14 days, in the microseconds of the clock.
\<close>

theorem staleness_timestamp_correctness:
  assumes "\<not> gone h"
  shows "\<exists>call tr r w'.
      for_host_list (static_env rows gone T) (h # rest) w
        = (Liveness (host_id h) True # Write_event call (sink_replies w 0) # tr, r, w')
    \<and> s_staleness (e_host (w_event call))
        = \<lparr>stale_warning_at = T + 7 * 86400000000, culled_at = T + 14 * 86400000000\<rparr>"
  using assms
  by (simp add: for_host_list.simps(2) should_synchronize_def static_fields updated_call_def
      staleness_timestamps_def Timestamps_def serialize_host_def build_event_def timedelta_def
      WARN_DAYS_AFTER_def DELETE_DAYS_AFTER_def Let_def
      split: sink_reply.splits prod.splits)

theorem staleness_timestamp_correctness_witness:
  "\<not> (\<lambda>h. False) \<lparr>host_id = 1, insights_id = None\<rparr>
   \<and> (\<exists>call tr r w'.
      for_host_list (static_env [] (\<lambda>h. False) 1000) (\<lparr>host_id = 1, insights_id = None\<rparr> # []) quiet
        = (Liveness 1 True # Write_event call Acked # tr, r, w')
    \<and> s_staleness (e_host (w_event call))
        = \<lparr>stale_warning_at = 604800001000, culled_at = 1209600001000\<rparr>)"
  using staleness_timestamp_correctness
    [where gone = "\<lambda>h. False" and h = "\<lparr>host_id = 1, insights_id = None\<rparr>"
      and rows = "[]" and T = 1000 and rest = "[]" and w = quiet]
  by (simp add: quiet_def)


text \<open>
  Claim C5 (cancellation boundary). Chunks are numbered from 0 and \<^verbatim>\<open>interrupt()\<close> is
  called once after each chunk. When its first true answer is the one given after chunk
  \<open>k\<close> (which exists: the store holds more than \<open>k\<close> full chunks), the generator returns
  normally, having yielded the outcomes of the first \<open>k + 1\<close> chunks in full and in order
  and visited no record beyond them.
\<close>

theorem cancellation_boundary:
  assumes "0 < chunk_size"
    and "\<forall>i. \<not> store_down w i" and "\<forall>i. sink_replies w i \<noteq> Sink_raised"
    and "\<forall>j<k. \<not> interrupts w j" and "interrupts w k"
    and "k * nat chunk_size < length rows" and "k < fuel"
  shows "\<exists>tr w'. synchronize_hosts fuel (static_env rows gone now) chunk_size w
                    = Some (tr, Interrupted, w')
    \<and> outcomes tr = map (outcome gone) (take (Suc k * nat chunk_size) rows)
    \<and> visits tr = map host_id (take (Suc k * nat chunk_size) rows)"
proof -
  let ?w1 = "w\<lparr>store_down := (\<lambda>i. store_down w (Suc i))\<rparr>"
  have "\<exists>tr w'. while_chunks fuel (static_env rows gone now) chunk_size 0 ?w1 = Some (tr, Interrupted, w')
    \<and> outcomes tr = map (outcome gone) (take (Suc k * nat chunk_size) (drop (nat 0) rows))
    \<and> visits tr = map host_id (take (Suc k * nat chunk_size) (drop (nat 0) rows))"
    using assms by (intro while_chunks_cancel) simp_all
  then obtain tr w' where
    "while_chunks fuel (static_env rows gone now) chunk_size 0 ?w1 = Some (tr, Interrupted, w')"
    "outcomes tr = map (outcome gone) (take (Suc k * nat chunk_size) rows)"
    "visits tr = map host_id (take (Suc k * nat chunk_size) rows)"
    by auto
  with assms(2) show ?thesis
    by (simp add: synchronize_hosts_def static_fields prepend_def)
qed

theorem cancellation_boundary_witness:
  "(0::int) < 2 \<and> (\<forall>i. \<not> store_down (stop_after 1) i)
   \<and> (\<forall>i. sink_replies (stop_after 1) i \<noteq> Sink_raised)
   \<and> \<not> interrupts (stop_after 1) 0 \<and> interrupts (stop_after 1) 1
   \<and> 1 * nat 2 < length five_hosts \<and> (1::nat) < 2
   \<and> (\<exists>tr w'. synchronize_hosts 2 (static_env five_hosts (\<lambda>h. False) 0) 2 (stop_after 1)
                  = Some (tr, Interrupted, w')
        \<and> outcomes tr = [(1, True), (2, True), (3, True), (4, True)]
        \<and> visits tr = [1, 2, 3, 4])"
  using cancellation_boundary [where chunk_size = 2 and w = "stop_after 1" and k = 1
      and rows = five_hosts and fuel = 2 and gone = "\<lambda>h. False" and now = 0]
  by (simp add: stop_after_def five_hosts_def outcome_def)

text \<open>
  Claim C9 (cancellation asked from the start). \<^verbatim>\<open>interrupt()\<close> is first called after the
  first chunk. With a predicate that answers true at every call and a store that is not
  empty, the sweep still reads the first chunk and processes it in full: one outcome per
  record of the chunk, one dispatch and one counter increment per live record of the
  chunk. The only call of the predicate is the last action, and the generator then
  returns normally.
\<close>

theorem cancelled_from_start:
  assumes "0 < chunk_size" and "rows \<noteq> []"
    and "\<forall>i. \<not> store_down w i" and "\<forall>i. sink_replies w i \<noteq> Sink_raised"
    and "\<forall>i. interrupts w i"
  shows "\<exists>t w'. synchronize_hosts (Suc fuel) (static_env rows gone now) chunk_size w
        = Some ([Query_count, Print_total (length rows), Chunk_count 0 chunk_size,
                 Chunk_select 0 chunk_size] @ t @ [Interrupt_poll True], Interrupted, w')
    \<and> outcomes t = map (outcome gone) (take (nat chunk_size) rows)
    \<and> visits t = map host_id (take (nat chunk_size) rows)
    \<and> length (filter is_write t) = length (filter (\<lambda>h. \<not> gone h) (take (nat chunk_size) rows))
    \<and> length (filter is_inc t) = length (filter (\<lambda>h. \<not> gone h) (take (nat chunk_size) rows))
    \<and> filter is_poll t = []"
proof -
  let ?env = "static_env rows gone now"
  let ?w1 = "w\<lparr>store_down := (\<lambda>i. store_down w (Suc i))\<rparr>"
  let ?chunk = "take (nat chunk_size) (drop (nat 0) rows)"
  let ?w2 = "?w1\<lparr>store_down := (\<lambda>i. store_down ?w1 (Suc (Suc i)))\<rparr>"
  have "\<forall>i. sink_replies ?w2 i \<noteq> Sink_raised"
    using assms(4) by simp
  from for_host_list_static [OF this, of rows gone now ?chunk]
  obtain t w3 where t:
    "for_host_list ?env ?chunk ?w2 = (t, None, w3)"
    "outcomes t = map (outcome gone) ?chunk" "visits t = map host_id ?chunk"
    "length (filter is_write t) = length (filter (\<lambda>h. \<not> gone h) ?chunk)"
    "length (filter is_inc t) = length (filter (\<lambda>h. \<not> gone h) ?chunk)"
    "filter is_poll t = []"
    "interrupts w3 = interrupts ?w2"
    by blast
  have live: "nat 0 < length rows"
    using assms(2) by simp
  have "while_chunks (Suc fuel) ?env chunk_size 0 ?w1 =
      Some (Chunk_count 0 chunk_size # Chunk_select 0 chunk_size # t @ [Interrupt_poll True],
            Interrupted, w3\<lparr>interrupts := (\<lambda>i. interrupts w3 (Suc i))\<rparr>)"
    using while_chunks_round [OF _ assms(1) live _ _ t(1), of fuel] assms(3,5) t(7)
    by simp
  with assms(3) t show ?thesis
    by (simp add: synchronize_hosts_def static_fields prepend_def)
qed

theorem cancelled_from_start_witness:
  "(0::int) < 2 \<and> five_hosts \<noteq> [] \<and> (\<forall>i. \<not> store_down (stop_after 0) i)
   \<and> (\<forall>i. sink_replies (stop_after 0) i \<noteq> Sink_raised) \<and> (\<forall>i. interrupts (stop_after 0) i)
   \<and> (\<exists>t w'. synchronize_hosts (Suc 0) (static_env five_hosts (\<lambda>h. host_id h = 2) 0) 2 (stop_after 0)
        = Some ([Query_count, Print_total 5, Chunk_count 0 2, Chunk_select 0 2] @ t
                @ [Interrupt_poll True], Interrupted, w')
      \<and> outcomes t = [(1, True), (2, False)]
      \<and> visits t = [1, 2]
      \<and> length (filter is_write t) = 1
      \<and> length (filter is_inc t) = 1
      \<and> filter is_poll t = [])"
  using cancelled_from_start [where chunk_size = 2 and rows = five_hosts and w = "stop_after 0"
      and gone = "\<lambda>h. host_id h = 2" and fuel = 0 and now = 0]
  by (simp add: stop_after_def five_hosts_def outcome_def eval_nat_numeral)


text \<open>
  Claim C7 (ordering). In a sweep over a static store, split the selection at any live
  record: before its segment the trace holds exactly the visits and outcomes of the
  records before it; its segment is the liveness check, the dispatch of its event, the
  counter increment and its outcome, in that order and with nothing in between; only
  after that come the visits and outcomes of the records after it. So the dispatch for a
  record precedes its outcome, its outcome precedes the visit of the next record, and
  outcomes appear one by one in visiting order.
\<close>

theorem dispatch_before_outcome:
  assumes "0 < chunk_size"
    and "\<forall>i. \<not> store_down w i" and "\<forall>i. sink_replies w i \<noteq> Sink_raised"
    and "\<forall>i. \<not> interrupts w i" and "length rows < fuel"
    and "rows = pre @ h # post" and "\<not> gone h"
  shows "\<exists>t1 call reply t2 w'.
      synchronize_hosts fuel (static_env rows gone now) chunk_size w
        = Some (t1 @ [Liveness (host_id h) True, Write_event call reply, Counter_inc,
                      Yield (host_id h) True] @ t2, Exhausted, w')
    \<and> updated_call (static_env rows gone now) w h = Inr call
    \<and> outcomes t1 = map (outcome gone) pre \<and> visits t1 = map host_id pre
    \<and> outcomes t2 = map (outcome gone) post \<and> visits t2 = map host_id post"
proof -
  let ?env = "static_env rows gone now"
  let ?w1 = "w\<lparr>store_down := (\<lambda>i. store_down w (Suc i))\<rparr>"
  have "\<exists>t1 seg t2 w'.
      while_chunks fuel ?env chunk_size 0 ?w1 = Some (t1 @ seg @ t2, Exhausted, w')
    \<and> outcomes t1 = map (outcome gone) pre \<and> visits t1 = map host_id pre
    \<and> outcomes t2 = map (outcome gone) post \<and> visits t2 = map host_id post
    \<and> (if gone h then seg = [Liveness (host_id h) False, Yield (host_id h) False]
        else \<exists>call reply. (\<forall>v. updated_call ?env v h = Inr call)
          \<and> reply \<noteq> Sink_raised
          \<and> seg = [Liveness (host_id h) True, Write_event call reply, Counter_inc,
                    Yield (host_id h) True])"
    using assms(1-6) by (intro while_chunks_split) simp_all
  then obtain t1 t2 w' call reply where r:
    "while_chunks fuel ?env chunk_size 0 ?w1
       = Some (t1 @ [Liveness (host_id h) True, Write_event call reply, Counter_inc,
                     Yield (host_id h) True] @ t2, Exhausted, w')"
    "outcomes t1 = map (outcome gone) pre" "visits t1 = map host_id pre"
    "outcomes t2 = map (outcome gone) post" "visits t2 = map host_id post"
    "\<forall>v. updated_call ?env v h = Inr call"
    using assms(7) by auto
  let ?t1 = "Query_count # Print_total (length rows) # t1"
  have "synchronize_hosts fuel ?env chunk_size w
      = Some (?t1 @ [Liveness (host_id h) True, Write_event call reply, Counter_inc,
                     Yield (host_id h) True] @ t2, Exhausted, w')"
    using spec [OF assms(2), of 0]
    by (simp add: synchronize_hosts_def static_fields prepend_def r(1))
  moreover have "outcomes ?t1 = map (outcome gone) pre" "visits ?t1 = map host_id pre"
    by (simp_all add: r(2,3))
  ultimately show ?thesis
    using r(4,5,6) by blast
qed

theorem dispatch_before_outcome_witness:
  "(0::int) < 2 \<and> (\<forall>i. \<not> store_down quiet i) \<and> (\<forall>i. sink_replies quiet i \<noteq> Sink_raised)
   \<and> (\<forall>i. \<not> interrupts quiet i) \<and> length five_hosts < 6
   \<and> five_hosts = take 2 five_hosts @ \<lparr>host_id = 3, insights_id = None\<rparr> # drop 3 five_hosts
   \<and> (\<exists>t1 call reply t2 w'.
      synchronize_hosts 6 (static_env five_hosts (\<lambda>h. False) 0) 2 quiet
        = Some (t1 @ [Liveness 3 True, Write_event call reply, Counter_inc, Yield 3 True] @ t2,
                Exhausted, w')
    \<and> updated_call (static_env five_hosts (\<lambda>h. False) 0) quiet \<lparr>host_id = 3, insights_id = None\<rparr>
        = Inr call
    \<and> outcomes t1 = [(1, True), (2, True)] \<and> visits t1 = [1, 2]
    \<and> outcomes t2 = [(4, True), (5, True)] \<and> visits t2 = [4, 5])"
proof -
  have split: "five_hosts = take 2 five_hosts @ \<lparr>host_id = 3, insights_id = None\<rparr> # drop 3 five_hosts"
    by (simp add: five_hosts_def)
  have pre: "map (outcome (\<lambda>h. False)) (take 2 five_hosts) = [(1, True), (2, True)]"
    "map host_id (take 2 five_hosts) = [1, 2]"
    by (simp_all add: five_hosts_def outcome_def)
  have post: "map (outcome (\<lambda>h. False)) (drop 3 five_hosts) = [(4, True), (5, True)]"
    "map host_id (drop 3 five_hosts) = [4, 5]"
    by (simp_all add: five_hosts_def outcome_def)
  have len: "length five_hosts < 6"
    by (simp add: five_hosts_def)
  show ?thesis
    using dispatch_before_outcome [where chunk_size = 2 and w = quiet and rows = five_hosts
        and fuel = 6 and pre = "take 2 five_hosts" and h = "\<lparr>host_id = 3, insights_id = None\<rparr>"
        and post = "drop 3 five_hosts" and gone = "\<lambda>h. False" and now = 0, OF _ _ _ _ len split]
    by (simp add: quiet_def pre post len flip: split)
qed

text \<open>
  An expired instance whose row is still in the store. Over the static store the load
  that \<^verbatim>\<open>host.id\<close> triggers succeeds, and the record is handled by the liveness check and
  the outcome \<open>(id, False)\<close> alone: between the outcome of the record before it and its
  own outcome there is no dispatch and no counter increment, and the sweep goes on with
  the records after it and ends by exhaustion.
\<close>

lemma expired_present_record_skipped:
  assumes "0 < chunk_size"
    and "\<forall>i. \<not> store_down w i" and "\<forall>i. sink_replies w i \<noteq> Sink_raised"
    and "\<forall>i. \<not> interrupts w i" and "length rows < fuel"
    and "rows = pre @ h # post" and "gone h"
  shows "\<exists>t1 t2 w'.
      synchronize_hosts fuel (static_env rows gone now) chunk_size w
        = Some (t1 @ [Liveness (host_id h) False, Yield (host_id h) False] @ t2, Exhausted, w')
    \<and> outcomes t1 = map (outcome gone) pre \<and> visits t1 = map host_id pre
    \<and> outcomes t2 = map (outcome gone) post \<and> visits t2 = map host_id post
    \<and> length (filter is_write (t1 @ t2)) = length (filter (\<lambda>h. \<not> gone h) rows)
    \<and> length (filter is_inc (t1 @ t2)) = length (filter (\<lambda>h. \<not> gone h) rows)"
proof -
  let ?env = "static_env rows gone now"
  let ?w1 = "w\<lparr>store_down := (\<lambda>i. store_down w (Suc i))\<rparr>"
  let ?seg = "[Liveness (host_id h) False, Yield (host_id h) False]"
  have "\<exists>t1 seg t2 w'.
      while_chunks fuel ?env chunk_size 0 ?w1 = Some (t1 @ seg @ t2, Exhausted, w')
    \<and> outcomes t1 = map (outcome gone) pre \<and> visits t1 = map host_id pre
    \<and> outcomes t2 = map (outcome gone) post \<and> visits t2 = map host_id post
    \<and> (if gone h then seg = [Liveness (host_id h) False, Yield (host_id h) False]
        else \<exists>call reply. (\<forall>v. updated_call ?env v h = Inr call)
          \<and> reply \<noteq> Sink_raised
          \<and> seg = [Liveness (host_id h) True, Write_event call reply, Counter_inc,
                    Yield (host_id h) True])"
    using assms(1-6) by (intro while_chunks_split) simp_all
  then obtain t1 t2 w' where r:
    "while_chunks fuel ?env chunk_size 0 ?w1 = Some (t1 @ ?seg @ t2, Exhausted, w')"
    "outcomes t1 = map (outcome gone) pre" "visits t1 = map host_id pre"
    "outcomes t2 = map (outcome gone) post" "visits t2 = map host_id post"
    using assms(7) by auto
  have "\<exists>tr w'. while_chunks fuel ?env chunk_size 0 ?w1 = Some (tr, Exhausted, w')
    \<and> outcomes tr = map (outcome gone) (drop (nat 0) rows)
    \<and> visits tr = map host_id (drop (nat 0) rows)
    \<and> length (filter is_write tr) = length (filter (\<lambda>h. \<not> gone h) (drop (nat 0) rows))
    \<and> length (filter is_inc tr) = length (filter (\<lambda>h. \<not> gone h) (drop (nat 0) rows))"
    using assms(1-5) by (intro while_chunks_normal) simp_all
  with r(1) have counts:
    "length (filter is_write (t1 @ ?seg @ t2)) = length (filter (\<lambda>h. \<not> gone h) rows)"
    "length (filter is_inc (t1 @ ?seg @ t2)) = length (filter (\<lambda>h. \<not> gone h) rows)"
    by auto
  let ?t1 = "Query_count # Print_total (length rows) # t1"
  have "synchronize_hosts fuel ?env chunk_size w = Some (?t1 @ ?seg @ t2, Exhausted, w')"
    using spec [OF assms(2), of 0]
    by (simp add: synchronize_hosts_def static_fields prepend_def r(1))
  moreover have "outcomes ?t1 = map (outcome gone) pre" "visits ?t1 = map host_id pre"
    by (simp_all add: r(2,3))
  moreover have "length (filter is_write (?t1 @ t2)) = length (filter (\<lambda>h. \<not> gone h) rows)"
    "length (filter is_inc (?t1 @ t2)) = length (filter (\<lambda>h. \<not> gone h) rows)"
    using counts by simp_all
  ultimately show ?thesis
    using r(4,5) by blast
qed



text \<open>
  Claim C8 (store unavailable). The sweep reads the store once for the total and then,
  for chunk \<open>k\<close>, once for the window's count and once for its rows. When the first read
  that throws is the count (\<open>sel\<close> false) or the selection (\<open>sel\<close> true) of chunk \<open>k\<close>,
  a read the sweep does reach, the generator ends with the store's exception: that read
  is the last action, the outcomes yielded are those of the \<open>k\<close> chunks completed before
  it, all of them and in order, and no further record is visited.
\<close>

theorem store_failure_aborts:
  assumes "0 < chunk_size"
    and "\<forall>i. sink_replies w i \<noteq> Sink_raised" and "\<forall>i. \<not> interrupts w i"
    and "\<forall>i < 1 + 2 * k + (if sel then 1 else 0). \<not> store_down w i"
    and "store_down w (1 + 2 * k + (if sel then 1 else 0))"
    and "k * nat chunk_size < length rows + (if sel then 0 else nat chunk_size)"
    and "k < fuel"
  shows "\<exists>tr w'. synchronize_hosts fuel (static_env rows gone now) chunk_size w
                    = Some (tr, Raised Store_error, w')
    \<and> outcomes tr = map (outcome gone) (take (k * nat chunk_size) rows)
    \<and> visits tr = map host_id (take (k * nat chunk_size) rows)
    \<and> last tr = (if sel then Chunk_select (int k * chunk_size) chunk_size
                  else Chunk_count (int k * chunk_size) chunk_size)"
proof -
  let ?env = "static_env rows gone now"
  let ?w1 = "w\<lparr>store_down := (\<lambda>i. store_down w (Suc i))\<rparr>"
  let ?b = "if sel then 1 else (0::nat)"
  have up: "\<not> store_down w 0"
    using assms(4) by simp
  have before: "\<forall>i < 2 * k + ?b. \<not> store_down ?w1 i"
  proof (intro allI impI)
    fix i assume "i < 2 * k + ?b"
    then have "Suc i < 1 + 2 * k + ?b" by simp
    with assms(4) have "\<not> store_down w (Suc i)" by blast
    then show "\<not> store_down ?w1 i" by simp
  qed
  have at: "store_down ?w1 (2 * k + ?b)"
    using assms(5) by simp
  have reach: "nat 0 + k * nat chunk_size < length rows + (if sel then 0 else nat chunk_size)"
    using assms(6) by simp
  have ok: "\<forall>i. sink_replies ?w1 i \<noteq> Sink_raised" and calm: "\<forall>i. \<not> interrupts ?w1 i"
    using assms(2,3) by simp_all
  from while_chunks_store_fails [OF assms(1) _ ok calm before at reach assms(7), of gone now]
  obtain tr w' where r:
    "while_chunks fuel ?env chunk_size 0 ?w1 = Some (tr, Raised Store_error, w')"
    "outcomes tr = map (outcome gone) (take (k * nat chunk_size) rows)"
    "visits tr = map host_id (take (k * nat chunk_size) rows)"
    "tr \<noteq> []"
    "last tr = (if sel then Chunk_select (int k * chunk_size) chunk_size
                else Chunk_count (int k * chunk_size) chunk_size)"
    by auto
  let ?tr = "Query_count # Print_total (length rows) # tr"
  have "synchronize_hosts fuel ?env chunk_size w = Some (?tr, Raised Store_error, w')"
    using up by (simp add: synchronize_hosts_def static_fields prepend_def r(1))
  moreover have "outcomes ?tr = map (outcome gone) (take (k * nat chunk_size) rows)"
    "visits ?tr = map host_id (take (k * nat chunk_size) rows)"
    by (simp_all add: r(2,3))
  moreover have "last ?tr = (if sel then Chunk_select (int k * chunk_size) chunk_size
                else Chunk_count (int k * chunk_size) chunk_size)"
    using r(4,5) by simp
  ultimately show ?thesis
    by blast
qed

theorem store_failure_aborts_witness:
  "(0::int) < 2 \<and> (\<forall>i. sink_replies (down_from 4) i \<noteq> Sink_raised)
   \<and> (\<forall>i. \<not> interrupts (down_from 4) i)
   \<and> \<not> store_down (down_from 4) 0 \<and> \<not> store_down (down_from 4) 1
   \<and> \<not> store_down (down_from 4) 2 \<and> \<not> store_down (down_from 4) 3
   \<and> store_down (down_from 4) 4
   \<and> 1 * nat 2 < length five_hosts \<and> (1::nat) < 2
   \<and> (\<exists>tr w'. synchronize_hosts 2 (static_env five_hosts (\<lambda>h. False) 0) 2 (down_from 4)
                  = Some (tr, Raised Store_error, w')
        \<and> outcomes tr = [(1, True), (2, True)]
        \<and> visits tr = [1, 2]
        \<and> last tr = Chunk_select 2 2)"
  using store_failure_aborts [where chunk_size = 2 and w = "down_from 4" and k = 1
      and sel = True and rows = five_hosts and fuel = 2 and gone = "\<lambda>h. False" and now = 0]
  by (simp add: down_from_def five_hosts_def outcome_def)


text \<open>
  Claim C2 (counter and acknowledgment), as stated, fails: the sweep does not look at
  what \<^verbatim>\<open>write_event\<close> returns. With an event producer that logs the delivery as failed
  and returns, the dispatch of the only record is not acknowledged and the counter is
  incremented all the same.
\<close>

theorem increment_without_acknowledgment:
  "observed (synchronize_hosts (Suc (Suc 0))
       (static_env [\<lparr>host_id = 1, insights_id = None\<rparr>] (\<lambda>h. False) 0) 1 logged_failures)
   = Some ([Query_count, Print_total 1, Chunk_count 0 1, Chunk_select 0 1, Liveness 1 True,
            Write_event
              \<lparr>w_event = \<lparr>e_type = ''updated'',
                 e_host = \<lparr>s_id = 1, s_insights_id = None,
                   s_staleness = \<lparr>stale_warning_at = 604800000000, culled_at = 1209600000000\<rparr>,
                   s_fields = []\<rparr>\<rparr>,
               w_key = \<lparr>s_id = 1, s_insights_id = None,
                 s_staleness = \<lparr>stale_warning_at = 604800000000, culled_at = 1209600000000\<rparr>,
                 s_fields = []\<rparr>,
               w_headers = \<lparr>h_event_type = ''updated'', h_insights_id = None\<rparr>,
               w_topic = ''events'', w_wait = True\<rparr>
              Failed_logged,
            Counter_inc, Yield 1 True, Interrupt_poll False, Chunk_count 1 1],
           Exhausted)"
  by (simp add: observed_def synchronize_hosts_def prepend_def while_chunks.simps(2)
      for_host_list.simps(2) static_fields window_def logged_failures_def
      should_synchronize_def updated_call_def staleness_timestamps_def Timestamps_def
      serialize_host_def build_event_def message_headers_def timedelta_def
      WARN_DAYS_AFTER_def DELETE_DAYS_AFTER_def Let_def)

text \<open>
  Claim C2, amended. The counter is incremented exactly once for each dispatch that
  returns to the sweep, acknowledged or not, right after that dispatch; a dispatch that
  raises produces no increment and is the last action of the sweep. This holds over a
  static store for every chunk size and whatever the store, the event producer and
  \<^verbatim>\<open>interrupt()\<close> answer; fuel above the number of records suffices for the sweep to end.
\<close>

theorem increment_per_returned_dispatch:
  assumes "length rows < fuel"
  shows "\<exists>tr st w'. synchronize_hosts fuel (static_env rows gone now) chunk_size w
                       = Some (tr, st, w')
    \<and> inc_after_return tr
    \<and> length (filter is_inc tr) = length (filter is_returned_write tr)"
proof (cases "store_down w 0")
  case True
  then show ?thesis
    by (simp add: synchronize_hosts_def static_fields)
next
  case False
  let ?env = "static_env rows gone now"
  let ?w1 = "w\<lparr>store_down := (\<lambda>i. store_down w (Suc i))\<rparr>"
  have "length rows - nat 0 < fuel"
    using assms by simp
  from while_chunks_total [OF this, of gone now chunk_size ?w1]
  obtain tr st w' where r: "while_chunks fuel ?env chunk_size 0 ?w1 = Some (tr, st, w')"
    by blast
  let ?tr = "Query_count # Print_total (length rows) # tr"
  have run: "synchronize_hosts fuel ?env chunk_size w = Some (?tr, st, w')"
    using False by (simp add: synchronize_hosts_def static_fields prepend_def r)
  have adjacent: "inc_after_return ?tr"
    using while_chunks_inc [OF r] by simp
  from inc_after_return_counts [OF adjacent] run adjacent show ?thesis
    by blast
qed

theorem increment_per_returned_dispatch_witness:
  "length [\<lparr>host_id = 1, insights_id = None\<rparr>] < 2
   \<and> (\<exists>tr st w'. synchronize_hosts 2
          (static_env [\<lparr>host_id = 1, insights_id = None\<rparr>] (\<lambda>h. False) 0) 1 logged_failures
            = Some (tr, st, w')
        \<and> inc_after_return tr
        \<and> length (filter is_inc tr) = length (filter is_returned_write tr))"
  using increment_per_returned_dispatch [where rows = "[\<lparr>host_id = 1, insights_id = None\<rparr>]"
      and fuel = 2 and gone = "\<lambda>h. False" and now = 0 and chunk_size = 1 and w = logged_failures]
  by simp




end
